theory Spec2Isabelle
  imports Complex_Main "HOL-Library.Log_Nat"
begin

section \<open>Python values used by the clock\<close>

subsection \<open>Exceptions\<close>

text \<open>
  The exceptions that the operations used by \<open>HourPercentClock_en.py\<close> and
  \<open>NEW_qt_hour_percent_clock_release.py\<close> can raise. An operation that may raise
  returns \<open>error + 'a\<close>, with \<open>Inl\<close> for the exception.
\<close>

datatype error =
    ZeroDivisionError
  | OverflowError
  | ValueError
  | AttributeError
  | OSError
  | JSONDecodeError

fun bind :: "error + 'a \<Rightarrow> ('a \<Rightarrow> error + 'b) \<Rightarrow> error + 'b" where
  "bind (Inl e) f = Inl e"
| "bind (Inr x) f = f x"

subsection \<open>Binary64 floating point\<close>

text \<open>
  A Python \<open>float\<close> is an IEEE 754 binary64 number. A finite one is modelled by the
  rational it denotes, and an arithmetic operation by the exact rational operation followed
  by rounding to the nearest binary64 number, ties to even (\<open>round_double\<close>). Signed zeros,
  infinities and NaN are not modelled: every float of \<open>compute_time_stats\<close> lies between
  0 and 86400.

  \<open>binade x\<close> is the exponent \<open>e\<close> with \<open>2^e \<le> |x| < 2^(e+1)\<close>. A binary64 number in
  that binade is a multiple of \<open>2^(e-52)\<close>; below \<open>2^-1022\<close> (subnormal numbers) the spacing
  stays \<open>2^-1074\<close>.
\<close>

definition binade :: "rat \<Rightarrow> int" where
  "binade x =
     (let (p, q) = quotient_of \<bar>x\<bar>;
          d = bitlen p - bitlen q
      in if 2 powi d \<le> \<bar>x\<bar> then d else d - 1)"

definition round_half_even :: "rat \<Rightarrow> int" where
  "round_half_even x =
     (let f = \<lfloor>x\<rfloor>;
          r = x - of_int f
      in if r < 1 / 2 then f
         else if 1 / 2 < r then f + 1
         else if even f then f else f + 1)"

definition quantum :: "rat \<Rightarrow> rat" where
  "quantum x = 2 powi (max (binade x) (- 1022) - 52)"

definition round_double :: "rat \<Rightarrow> rat" where
  "round_double x =
     (if x = 0 then 0
      else of_int (round_half_even (x / quantum x)) * quantum x)"

definition max_double :: rat where
  "max_double = (2 ^ 53 - 1) * 2 ^ 971"

text \<open>
  True division of two \<open>int\<close>s gives the correctly rounded quotient and raises for a zero
  divisor or a quotient too large for a float. In \<open>int + float\<close> and \<open>float / int\<close>
  the \<open>int\<close> operand is first converted to a float.
\<close>

definition int_truediv :: "int \<Rightarrow> int \<Rightarrow> error + rat" where
  "int_truediv a b =
     (if b = 0 then Inl ZeroDivisionError
      else let r = round_double (of_int a / of_int b)
           in if max_double < \<bar>r\<bar> then Inl OverflowError else Inr r)"

definition float_of_int :: "int \<Rightarrow> error + rat" where
  "float_of_int n =
     (let r = round_double (of_int n)
      in if max_double < \<bar>r\<bar> then Inl OverflowError else Inr r)"

definition float_add :: "rat \<Rightarrow> rat \<Rightarrow> rat" where
  "float_add a b = round_double (a + b)"

definition float_mul :: "rat \<Rightarrow> rat \<Rightarrow> rat" where
  "float_mul a b = round_double (a * b)"

definition float_truediv :: "rat \<Rightarrow> rat \<Rightarrow> error + rat" where
  "float_truediv a b =
     (if b = 0 then Inl ZeroDivisionError else Inr (round_double (a / b)))"

definition add_int_float :: "int \<Rightarrow> rat \<Rightarrow> error + rat" where
  "add_int_float n x = bind (float_of_int n) (\<lambda>a. Inr (float_add a x))"

definition div_float_int :: "rat \<Rightarrow> int \<Rightarrow> error + rat" where
  "div_float_int x n = bind (float_of_int n) (\<lambda>b. float_truediv x b)"

text \<open>\<open>math.ceil\<close> of a finite float is the least integer not below it.\<close>

definition py_ceil :: "rat \<Rightarrow> int" where
  "py_ceil x = \<lceil>x\<rceil>"

subsection \<open>Dates and timestamps\<close>

text \<open>
  \<open>datetime.date\<close> and \<open>datetime.datetime\<close>. Every object of these classes satisfies
  \<open>valid_date\<close>, respectively \<open>valid_datetime\<close>: the constructors raise otherwise
  (\<open>date_new\<close>: \<open>ValueError\<close> for a field out of range, \<open>OverflowError\<close> for an
  argument that is no C \<open>int\<close>). Subtracting two dates subtracts their proleptic Gregorian ordinals
  (\<open>toordinal\<close>) and builds a \<open>timedelta\<close>, whose day count is limited to
  \<open>\<plusminus>999999999\<close>; comparing two dates compares year, month and day in this order.
\<close>

record date =
  year :: int
  month :: int
  day :: int

record datetime = date +
  hour :: int
  minute :: int
  second :: int
  microsecond :: int

definition date_of :: "datetime \<Rightarrow> date" where
  "date_of dt = \<lparr>year = year dt, month = month dt, day = day dt\<rparr>"

definition is_leap :: "int \<Rightarrow> bool" where
  "is_leap y = (if y mod 100 = 0 then y mod 400 = 0 else y mod 4 = 0)"

definition days_in_month :: "int \<Rightarrow> int \<Rightarrow> int" where
  "days_in_month y m =
     (if m = 2 then (if is_leap y then 29 else 28)
      else if m = 4 \<or> m = 6 \<or> m = 9 \<or> m = 11 then 30
      else 31)"

definition days_before_year :: "int \<Rightarrow> int" where
  "days_before_year y =
     (let z = y - 1 in z * 365 + z div 4 - z div 100 + z div 400)"

definition days_before_month :: "int \<Rightarrow> int \<Rightarrow> int" where
  "days_before_month y m =
     (if m = 1 then 0
      else if m = 2 then 31
      else (if is_leap y then 1 else 0) +
        (if m = 3 then 59
         else if m = 4 then 90
         else if m = 5 then 120
         else if m = 6 then 151
         else if m = 7 then 181
         else if m = 8 then 212
         else if m = 9 then 243
         else if m = 10 then 273
         else if m = 11 then 304
         else 334))"

definition toordinal :: "date \<Rightarrow> int" where
  "toordinal d =
     days_before_year (year d) + days_before_month (year d) (month d) + day d"

definition valid_date :: "date \<Rightarrow> bool" where
  "valid_date d \<longleftrightarrow>
     1 \<le> year d \<and> year d \<le> 9999 \<and>
     1 \<le> month d \<and> month d \<le> 12 \<and>
     1 \<le> day d \<and> day d \<le> days_in_month (year d) (month d)"

definition valid_datetime :: "datetime \<Rightarrow> bool" where
  "valid_datetime dt \<longleftrightarrow>
     valid_date (date_of dt) \<and>
     0 \<le> hour dt \<and> hour dt \<le> 23 \<and>
     0 \<le> minute dt \<and> minute dt \<le> 59 \<and>
     0 \<le> second dt \<and> second dt \<le> 59 \<and>
     0 \<le> microsecond dt \<and> microsecond dt \<le> 999999"

definition date_new :: "int \<Rightarrow> int \<Rightarrow> int \<Rightarrow> error + date" where
  "date_new y m d =
     (if list_all (\<lambda>v. - (2 ^ 31) \<le> v \<and> v < 2 ^ 31) [y, m, d]
      then if valid_date \<lparr>year = y, month = m, day = d\<rparr>
           then Inr \<lparr>year = y, month = m, day = d\<rparr>
           else Inl ValueError
      else Inl OverflowError)"

definition date_sub :: "date \<Rightarrow> date \<Rightarrow> error + int" where
  "date_sub a b =
     (let days = toordinal a - toordinal b
      in if 999999999 < \<bar>days\<bar> then Inl OverflowError else Inr days)"

definition date_lt :: "date \<Rightarrow> date \<Rightarrow> bool" where
  "date_lt a b \<longleftrightarrow>
     year a < year b \<or>
     year a = year b \<and> (month a < month b \<or> month a = month b \<and> day a < day b)"

definition date_le :: "date \<Rightarrow> date \<Rightarrow> bool" where
  "date_le a b \<longleftrightarrow> date_lt a b \<or> a = b"

subsection \<open>Parsed JSON and the environment\<close>

text \<open>
  What \<open>json.load\<close> returns: \<open>None\<close>, a \<open>bool\<close>, an \<open>int\<close>, a \<open>float\<close>, a \<open>str\<close>,
  a \<open>list\<close> or a \<open>dict\<close> with string keys (here the list of its items).
\<close>

datatype json =
    JNull
  | JBool bool
  | JInt int
  | JFloat rat
  | JStr string
  | JList "json list"
  | JObj "(string \<times> json) list"

text \<open>
  The configuration file as the loader meets it: no file at the path, a file that cannot be
  opened or read, a file whose text \<open>json.load\<close> rejects, or a file that parses.
\<close>

datatype config_state =
    Missing
  | Unreadable
  | Malformed
  | Parsed json

text \<open>
  The part of the environment the two programs read: the system clock
  (\<open>datetime.now()\<close>, \<open>date.today()\<close>) and the configuration file.
\<close>

record world =
  clock :: datetime
  config_file :: config_state

definition datetime_now :: "world \<Rightarrow> datetime" where
  "datetime_now w = clock w"

definition date_today :: "world \<Rightarrow> date" where
  "date_today w = date_of (clock w)"

definition path_exists :: "world \<Rightarrow> bool" where
  "path_exists w = (case config_file w of Missing \<Rightarrow> False | _ \<Rightarrow> True)"

definition json_load :: "world \<Rightarrow> error + json" where
  "json_load w =
     (case config_file w of
        Missing \<Rightarrow> Inl OSError
      | Unreadable \<Rightarrow> Inl OSError
      | Malformed \<Rightarrow> Inl JSONDecodeError
      | Parsed v \<Rightarrow> Inr v)"

text \<open>\<open>data.get(key)\<close>: only a \<open>dict\<close> has the method; a missing key gives \<open>None\<close>.\<close>

fun dict_get :: "json \<Rightarrow> string \<Rightarrow> error + json" where
  "dict_get (JObj items) k =
     Inr (case map_of items k of None \<Rightarrow> JNull | Some v \<Rightarrow> v)"
| "dict_get _ k = Inl AttributeError"

text \<open>
  \<open>isinstance(x, int)\<close>: \<open>bool\<close> is a subclass of \<open>int\<close>, and \<open>True\<close> and \<open>False\<close>
  count as the integers 1 and 0 wherever an \<open>int\<close> is expected.
\<close>

fun isinstance_int :: "json \<Rightarrow> bool" where
  "isinstance_int (JInt n) = True"
| "isinstance_int (JBool b) = True"
| "isinstance_int _ = False"

fun int_value :: "json \<Rightarrow> int" where
  "int_value (JInt n) = n"
| "int_value (JBool b) = (if b then 1 else 0)"
| "int_value _ = 0"

section \<open>The configuration loader\<close>

text \<open>
  \<open>load_birthdate_from_config\<close> of \<open>HourPercentClock_en.py\<close>. The \<open>try\<close> block is the
  \<open>error + date option\<close> computation; \<open>except Exception: return None\<close> maps every
  exception to \<open>None\<close>.
\<close>

definition load_birthdate_from_config_en :: "world \<Rightarrow> date option" where
  "load_birthdate_from_config_en w =
     (if \<not> path_exists w then None
      else
        case
          bind (json_load w) (\<lambda>data.
          bind (dict_get data ''year'') (\<lambda>y.
          bind (dict_get data ''month'') (\<lambda>m.
          bind (dict_get data ''day'') (\<lambda>d.
            if list_all isinstance_int [y, m, d] then
              bind (date_new (int_value y) (int_value m) (int_value d)) (\<lambda>bd.
                if date_le bd (date_today w) then Inr (Some bd) else Inr None)
            else Inr None))))
        of Inl e \<Rightarrow> None | Inr r \<Rightarrow> r)"

text \<open>
  \<open>load_birthdate_from_config\<close> of \<open>NEW_qt_hour_percent_clock_release.py\<close>: the same
  steps with the two tests negated and returning early.
\<close>

definition load_birthdate_from_config_release :: "world \<Rightarrow> date option" where
  "load_birthdate_from_config_release w =
     (if \<not> path_exists w then None
      else
        case
          bind (json_load w) (\<lambda>data.
          bind (dict_get data ''year'') (\<lambda>y.
          bind (dict_get data ''month'') (\<lambda>m.
          bind (dict_get data ''day'') (\<lambda>d.
            if \<not> list_all isinstance_int [y, m, d] then Inr None
            else
              bind (date_new (int_value y) (int_value m) (int_value d)) (\<lambda>bd.
                if date_lt (date_today w) bd then Inr None else Inr (Some bd))))))
        of Inl e \<Rightarrow> None | Inr r \<Rightarrow> r)"

section \<open>The time statistics\<close>

text \<open>The six values \<open>compute_time_stats\<close> returns, named as in its docstring.\<close>

record time_stats =
  now :: datetime
  hour_pct :: rat
  day_pct :: rat
  days_alive :: int
  next_hundred :: int
  days_to_next :: int

text \<open>
  \<open>compute_time_stats\<close> of \<open>HourPercentClock_en.py\<close>. It returns the result or the
  exception raised, together with the environment it leaves behind.
\<close>

definition compute_time_stats_en :: "world \<Rightarrow> date \<Rightarrow> (error + time_stats) \<times> world" where
  "compute_time_stats_en w birthdate =
     (let now = datetime_now w in
      (bind (int_truediv (microsecond now) 1000000) (\<lambda>frac.
       bind (add_int_float (minute now * 60 + second now) frac) (\<lambda>sec_in_hour.
       bind (div_float_int sec_in_hour 3600) (\<lambda>hour_frac.
       let hour_pct = float_mul hour_frac 100 in
       bind (int_truediv (microsecond now) 1000000) (\<lambda>frac'.
       bind (add_int_float (hour now * 3600 + minute now * 60 + second now) frac')
         (\<lambda>sec_in_day.
       bind (div_float_int sec_in_day 86400) (\<lambda>day_frac.
       let day_pct = float_mul day_frac 100 in
       bind (date_sub (date_of now) birthdate) (\<lambda>days.
       let days_alive = (if days < 0 then 0 else days) in
       bind (if days_alive = 0 then Inr 100
             else bind (int_truediv days_alive 100) (\<lambda>q.
                  let next_hundred = py_ceil q * 100
                  in Inr (if next_hundred = days_alive then next_hundred + 100
                          else next_hundred))) (\<lambda>next_hundred.
       let days_to_next = max 0 (next_hundred - days_alive) in
       Inr \<lparr>now = now, hour_pct = hour_pct, day_pct = day_pct, days_alive = days_alive,
            next_hundred = next_hundred, days_to_next = days_to_next\<rparr>)))))))),
       w))"

text \<open>
  \<open>compute_time_stats\<close> of \<open>NEW_qt_hour_percent_clock_release.py\<close>: the divisors
  \<open>3600.0\<close> and \<open>86400.0\<close> are float literals.
\<close>

definition compute_time_stats_release ::
  "world \<Rightarrow> date \<Rightarrow> (error + time_stats) \<times> world" where
  "compute_time_stats_release w birthdate =
     (let now = datetime_now w in
      (bind (int_truediv (microsecond now) 1000000) (\<lambda>frac.
       bind (add_int_float (minute now * 60 + second now) frac) (\<lambda>sec_in_hour.
       bind (float_truediv sec_in_hour 3600) (\<lambda>hour_frac.
       let hour_pct = float_mul hour_frac 100 in
       bind (int_truediv (microsecond now) 1000000) (\<lambda>frac'.
       bind (add_int_float (hour now * 3600 + minute now * 60 + second now) frac')
         (\<lambda>sec_in_day.
       bind (float_truediv sec_in_day 86400) (\<lambda>day_frac.
       let day_pct = float_mul day_frac 100 in
       bind (date_sub (date_of now) birthdate) (\<lambda>days.
       let days_alive = (if days < 0 then 0 else days) in
       bind (if days_alive = 0 then Inr 100
             else bind (int_truediv days_alive 100) (\<lambda>q.
                  let next_hundred = py_ceil q * 100
                  in Inr (if next_hundred = days_alive then next_hundred + 100
                          else next_hundred))) (\<lambda>next_hundred.
       let days_to_next = max 0 (next_hundred - days_alive) in
       Inr \<lparr>now = now, hour_pct = hour_pct, day_pct = day_pct, days_alive = days_alive,
            next_hundred = next_hundred, days_to_next = days_to_next\<rparr>)))))))),
       w))"

section \<open>The formulas of the specification\<close>

text \<open>
  The fractional seconds of a timestamp as a float, and the two percentages as the
  specification writes them, \<open>(m \<times> 60 + s + f) / 3600 \<times> 100\<close> and
  \<open>(h \<times> 3600 + m \<times> 60 + s + f) / 86400 \<times> 100\<close>, evaluated from left to right in
  binary64 arithmetic: the integer part is exact, and the sum with \<open>f\<close>, the quotient and
  the product are each rounded.
\<close>

definition fractional_seconds :: "datetime \<Rightarrow> rat" where
  "fractional_seconds dt = round_double (of_int (microsecond dt) / 1000000)"

definition spec_hour_pct :: "int \<Rightarrow> int \<Rightarrow> rat \<Rightarrow> rat" where
  "spec_hour_pct m s f =
     round_double (round_double (round_double (of_int (m * 60 + s) + f) / 3600) * 100)"

definition spec_day_pct :: "int \<Rightarrow> int \<Rightarrow> int \<Rightarrow> rat \<Rightarrow> rat" where
  "spec_day_pct h m s f =
     round_double
       (round_double (round_double (of_int (h * 3600 + m * 60 + s) + f) / 86400) * 100)"

section \<open>Example inputs\<close>

text \<open>
  A clock reading 2024-03-01T12:30:00 with no configuration file, and three birthdates:
  29 days before that date, exactly 100 days before it, and far after it.
\<close>

definition example_world :: world where
  "example_world =
     \<lparr>clock = \<lparr>year = 2024, month = 3, day = 1,
                hour = 12, minute = 30, second = 0, microsecond = 0\<rparr>,
      config_file = Missing\<rparr>"

definition birthdate_29_days :: date where
  "birthdate_29_days = \<lparr>year = 2024, month = 2, day = 1\<rparr>"

definition birthdate_100_days :: date where
  "birthdate_100_days = \<lparr>year = 2023, month = 11, day = 22\<rparr>"

definition birthdate_future :: date where
  "birthdate_future = \<lparr>year = 2999, month = 1, day = 1\<rparr>"

text \<open>
  The same clock reading with a configuration file whose three keys are bound to the JSON
  value \<open>true\<close>, that is, the file \<open>{"year": true, "month": true, "day": true}\<close>.
\<close>

definition boolean_config_world :: world where
  "boolean_config_world =
     example_world\<lparr>config_file :=
       Parsed (JObj [(''year'', JBool True), (''month'', JBool True), (''day'', JBool True)])\<rparr>"

section \<open>Properties of binary64 rounding\<close>

lemma bitlen_powi:
  assumes "0 < p"
  shows "(2::rat) powi (bitlen p - 1) \<le> of_int p" and "(of_int p :: rat) < 2 powi bitlen p"
proof -
  have b1: "1 \<le> bitlen p"
    using assms bitlen_eq_zero_iff [of p] bitlen_nonneg [of p] by linarith
  from bitlen_bounds [OF assms]
  have lo: "2 ^ nat (bitlen p - 1) \<le> p" and hi: "p < 2 ^ nat (bitlen p)" by simp_all
  have "(of_int (2 ^ nat (bitlen p - 1)) :: rat) \<le> of_int p"
    using lo by (simp only: of_int_le_iff)
  then show "(2::rat) powi (bitlen p - 1) \<le> of_int p"
    using b1 by (simp add: power_int_def)
  have "(of_int p :: rat) < of_int (2 ^ nat (bitlen p))"
    using hi by (simp only: of_int_less_iff)
  then show "(of_int p :: rat) < 2 powi bitlen p"
    using b1 by (simp add: power_int_def)
qed

lemma binade_bounds:
  assumes "x \<noteq> 0"
  shows "2 powi binade x \<le> \<bar>x\<bar>" and "\<bar>x\<bar> < 2 powi (binade x + 1)"
proof -
  obtain p q where pq: "quotient_of \<bar>x\<bar> = (p, q)" by force
  have q: "0 < q" using quotient_of_denom_pos [OF pq] .
  have xa: "\<bar>x\<bar> = of_int p / of_int q" using quotient_of_div [OF pq] .
  have "0 < \<bar>x\<bar>" using assms by simp
  then have p: "0 < p" using q xa by (simp add: zero_less_divide_iff)
  define d where "d = bitlen p - bitlen q"
  have qr: "(0::rat) < of_int q" using q by simp
  have pos: "\<And>n. (0::rat) < 2 powi n" by (simp add: zero_less_power_int)
  have up: "\<bar>x\<bar> < 2 powi (d + 1)"
  proof -
    have "\<bar>x\<bar> < 2 powi bitlen p / of_int q"
      unfolding xa using bitlen_powi(2) [OF p] qr by (simp add: divide_strict_right_mono)
    also have "\<dots> \<le> 2 powi bitlen p / 2 powi (bitlen q - 1)"
      using bitlen_powi(1) [OF q] q by (intro divide_left_mono) (simp_all add: zero_less_mult_iff)
    also have "\<dots> = 2 powi (d + 1)"
      by (simp add: d_def power_int_diff [symmetric] algebra_simps)
    finally show ?thesis .
  qed
  have lo: "2 powi (d - 1) \<le> \<bar>x\<bar>"
  proof -
    have "(2::rat) powi (d - 1) = 2 powi (bitlen p - 1) / 2 powi bitlen q"
      by (simp add: d_def power_int_diff [symmetric] algebra_simps)
    also have "\<dots> \<le> 2 powi (bitlen p - 1) / of_int q"
      using bitlen_powi(2) [OF q] q by (intro divide_left_mono) (simp_all add: zero_less_mult_iff)
    also have "\<dots> \<le> \<bar>x\<bar>"
      unfolding xa using bitlen_powi(1) [OF p] qr by (simp add: divide_right_mono)
    finally show ?thesis .
  qed
  have be: "binade x = (if 2 powi d \<le> \<bar>x\<bar> then d else d - 1)"
    by (simp add: binade_def pq d_def Let_def)
  show "2 powi binade x \<le> \<bar>x\<bar>" using lo by (simp add: be)
  show "\<bar>x\<bar> < 2 powi (binade x + 1)" using up by (auto simp add: be)
qed

lemma binade_eqI:
  assumes "2 powi e \<le> \<bar>x\<bar>" and "\<bar>x\<bar> < 2 powi (e + 1)"
  shows "binade x = e"
proof -
  have "(0::rat) < 2 powi e" by (simp add: zero_less_power_int)
  then have "0 < \<bar>x\<bar>" using assms(1) by (rule less_le_trans)
  then have "x \<noteq> 0" by simp
  note b = binade_bounds [OF this]
  have inc: "\<And>m n. m \<le> n \<Longrightarrow> (2::rat) powi m \<le> 2 powi n"
    by (rule power_int_increasing) simp_all
  have "(2::rat) powi e < 2 powi (binade x + 1)" using assms(1) b(2) by linarith
  then have 1: "e < binade x + 1" using inc [of "binade x + 1" e] by linarith
  have "(2::rat) powi binade x < 2 powi (e + 1)" using assms(2) b(1) by linarith
  then have 2: "binade x < e + 1" using inc [of "e + 1" "binade x"] by linarith
  show ?thesis using 1 2 by simp
qed

lemma round_half_even_of_int: "round_half_even (of_int k) = k"
  by (simp add: round_half_even_def)

lemma round_half_even_bounds:
  shows "\<lfloor>x\<rfloor> \<le> round_half_even x" and "round_half_even x \<le> \<lfloor>x\<rfloor> + 1"
  by (simp_all add: round_half_even_def Let_def)

lemma round_half_even_mono:
  assumes "x \<le> y"
  shows "round_half_even x \<le> round_half_even y"
proof (cases "\<lfloor>x\<rfloor> = \<lfloor>y\<rfloor>")
  case True
  then show ?thesis using assms by (auto simp add: round_half_even_def Let_def)
next
  case False
  have "\<lfloor>x\<rfloor> \<le> \<lfloor>y\<rfloor>" using assms by (rule floor_mono)
  then have "\<lfloor>x\<rfloor> + 1 \<le> \<lfloor>y\<rfloor>" using False by simp
  then show ?thesis
    using round_half_even_bounds(2) [of x] round_half_even_bounds(1) [of y] by linarith
qed

lemma two_powi_pos: "(0::rat) < 2 powi n"
  by (simp add: zero_less_power_int)

lemma two_powi_mono: "m \<le> n \<Longrightarrow> (2::rat) powi m \<le> 2 powi n"
  by (rule power_int_increasing) simp_all

lemma two_powi_less_imp: "(2::rat) powi m < 2 powi n \<Longrightarrow> m < n"
  using two_powi_mono [of n m] by linarith

lemma two_powi_split:
  assumes "t \<le> j"
  shows "(2::rat) powi j = of_int (2 ^ nat (j - t)) * 2 powi t"
proof -
  have "(2::rat) powi ((j - t) + t) = 2 powi (j - t) * 2 powi t"
    by (rule power_int_add) simp
  moreover have "(2::rat) powi (j - t) = 2 ^ nat (j - t)"
    using assms by (simp add: power_int_def)
  ultimately show ?thesis by simp
qed

lemma quantum_pos: "0 < quantum x"
  by (simp add: quantum_def two_powi_pos)

lemma binade_mono:
  assumes "0 < x" and "x \<le> y"
  shows "binade x \<le> binade y"
proof -
  have "x \<noteq> 0" "y \<noteq> 0" using assms by auto
  from binade_bounds(1) [OF this(1)] binade_bounds(2) [OF this(2)] assms
  have "(2::rat) powi binade x < 2 powi (binade y + 1)" by linarith
  then show ?thesis using two_powi_less_imp by fastforce
qed

lemma grid_le:
  assumes "x \<le> of_int n * quantum x"
  shows "round_double x \<le> of_int n * quantum x"
proof (cases "x = 0")
  case True
  then show ?thesis using assms by (simp add: round_double_def)
next
  case False
  have "x / quantum x \<le> of_int n"
    using assms quantum_pos [of x] by (simp add: pos_divide_le_eq)
  then have "round_half_even (x / quantum x) \<le> n"
    using round_half_even_mono round_half_even_of_int by metis
  then have "(of_int (round_half_even (x / quantum x)) :: rat) \<le> of_int n"
    by (simp only: of_int_le_iff)
  then show ?thesis
    using False quantum_pos [of x] by (simp add: round_double_def)
qed

lemma grid_ge:
  assumes "of_int n * quantum x \<le> x"
  shows "of_int n * quantum x \<le> round_double x"
proof (cases "x = 0")
  case True
  then show ?thesis using assms by (simp add: round_double_def)
next
  case False
  have "of_int n \<le> x / quantum x"
    using assms quantum_pos [of x] by (simp add: pos_le_divide_eq)
  then have "n \<le> round_half_even (x / quantum x)"
    using round_half_even_mono round_half_even_of_int by metis
  then have "(of_int n :: rat) \<le> of_int (round_half_even (x / quantum x))"
    by (simp only: of_int_le_iff)
  then show ?thesis
    using False quantum_pos [of x] by (simp add: round_double_def)
qed

lemma round_double_fixed:
  assumes "\<bar>n\<bar> < 2 ^ 53" and "- 1074 \<le> j"
  shows "round_double (of_int n * 2 powi j) = of_int n * 2 powi j"
proof (cases "n = 0")
  case True
  then show ?thesis by (simp add: round_double_def)
next
  case False
  define x :: rat where "x = of_int n * 2 powi j"
  have x0: "x \<noteq> 0" using False by (simp add: x_def)
  have "\<bar>x\<bar> = of_int \<bar>n\<bar> * 2 powi j"
    by (simp add: x_def abs_mult)
  also have "\<dots> < of_int (2 ^ 53) * 2 powi j"
    using assms(1) two_powi_pos [of j] by (simp only: mult_less_cancel_right_pos of_int_less_iff)
  also have "\<dots> = 2 powi (53 + j)"
    by (simp add: power_int_add)
  finally have "\<bar>x\<bar> < 2 powi (53 + j)" .
  with binade_bounds(1) [OF x0] have "(2::rat) powi binade x < 2 powi (53 + j)" by linarith
  then have "binade x < 53 + j" by (rule two_powi_less_imp)
  then have t: "max (binade x) (- 1022) - 52 \<le> j" using assms(2) by simp
  define m where "m = n * 2 ^ nat (j - (max (binade x) (- 1022) - 52))"
  have "(2::rat) powi j = of_int (2 ^ nat (j - (max (binade x) (- 1022) - 52))) * quantum x"
    unfolding quantum_def using t by (rule two_powi_split)
  then have "of_int n * 2 powi j = of_int m * quantum x"
    by (simp add: m_def)
  then have xm: "x = of_int m * quantum x"
    by (simp only: x_def)
  have "round_double x \<le> x" using grid_le [of x m] xm by simp
  moreover have "x \<le> round_double x" using grid_ge [of m x] xm by simp
  ultimately show ?thesis unfolding x_def by simp
qed

lemma round_double_mono:
  assumes "0 \<le> x" and "x \<le> y"
  shows "round_double x \<le> round_double y"
proof (cases "x = 0")
  case True
  have "of_int 0 * quantum y \<le> round_double y"
    by (rule grid_ge) (use assms True in simp)
  then show ?thesis using True by (simp add: round_double_def)
next
  case False
  then have xp: "0 < x" and yp: "0 < y" using assms by auto
  define ex where "ex = max (binade x) (- 1022)"
  define ey where "ey = max (binade y) (- 1022)"
  have le: "ex \<le> ey" using binade_mono [OF xp assms(2)] by (simp add: ex_def ey_def)
  have qx: "quantum x = 2 powi (ex - 52)" by (simp add: quantum_def ex_def)
  have qy: "quantum y = 2 powi (ey - 52)" by (simp add: quantum_def ey_def)
  show ?thesis
  proof (cases "ex = ey")
    case True
    then have q: "quantum x = quantum y" by (simp add: qx qy)
    have "x / quantum y \<le> y / quantum y"
      using assms(2) quantum_pos [of y] by (simp add: divide_right_mono)
    then have "round_half_even (x / quantum y) \<le> round_half_even (y / quantum y)"
      by (rule round_half_even_mono)
    then have "(of_int (round_half_even (x / quantum y)) :: rat)
               \<le> of_int (round_half_even (y / quantum y))"
      by (simp only: of_int_le_iff)
    then show ?thesis
      using xp yp quantum_pos [of y] by (simp add: round_double_def q)
  next
    case False
    then have lt: "ex < ey" using le by simp
    then have bey: "binade y = ey" by (auto simp add: ey_def ex_def max_def split: if_splits)
    have "x < 2 powi (binade x + 1)" using binade_bounds(2) [of x] xp by simp
    also have "\<dots> \<le> 2 powi ey" using lt by (intro two_powi_mono) (simp add: ex_def)
    finally have x_le: "x \<le> 2 powi ey" by simp
    have y_ge: "2 powi ey \<le> y" using binade_bounds(1) [of y] yp bey by simp
    have sx: "(2::rat) powi ey = of_int (2 ^ nat (ey - (ex - 52))) * quantum x"
      unfolding qx using lt by (intro two_powi_split) simp
    have sy: "(2::rat) powi ey = of_int (2 ^ nat (ey - (ey - 52))) * quantum y"
      unfolding qy by (intro two_powi_split) simp
    have "round_double x \<le> 2 powi ey"
      using grid_le [of x "2 ^ nat (ey - (ex - 52))"] x_le sx by simp
    moreover have "2 powi ey \<le> round_double y"
      using grid_ge [of "2 ^ nat (ey - (ey - 52))" y] y_ge sy by simp
    ultimately show ?thesis by simp
  qed
qed

lemma round_double_nonneg: "0 \<le> x \<Longrightarrow> 0 \<le> round_double x"
  using round_double_mono [of 0 x] by (simp add: round_double_def)

lemma round_double_of_int: "\<bar>n\<bar> < 2 ^ 53 \<Longrightarrow> round_double (of_int n) = of_int n"
  using round_double_fixed [of n 0] by simp

section \<open>Properties of date ordinals\<close>

lemma month_cases:
  assumes "1 \<le> m" and "m \<le> (12::int)"
  obtains "m = 1" | "m = 2" | "m = 3" | "m = 4" | "m = 5" | "m = 6"
    | "m = 7" | "m = 8" | "m = 9" | "m = 10" | "m = 11" | "m = 12"
proof -
  have "m = 1 \<or> m = 2 \<or> m = 3 \<or> m = 4 \<or> m = 5 \<or> m = 6
      \<or> m = 7 \<or> m = 8 \<or> m = 9 \<or> m = 10 \<or> m = 11 \<or> m = 12"
    using assms by arith
  then show thesis using that by blast
qed


lemma div_step:
  fixes z k :: int
  assumes "0 < k"
  shows "(z + 1) div k = z div k + (if (z + 1) mod k = 0 then 1 else 0)"
proof -
  define q where "q = (z + 1) div k"
  define r where "r = (z + 1) mod k"
  have r: "0 \<le> r" "r < k" using assms by (simp_all add: r_def)
  have eq: "z + 1 = k * q + r" by (simp add: q_def r_def)
  show ?thesis
  proof (cases "r = 0")
    case True
    have "z = k * (q - 1) + (k - 1)" using eq True by (simp add: algebra_simps)
    then have "z div k = q - 1"
      by (rule int_div_pos_eq) (use assms in simp_all)
    then show ?thesis using True by (simp add: q_def r_def)
  next
    case False
    have "z = k * q + (r - 1)" using eq by simp
    then have "z div k = q"
      by (rule int_div_pos_eq) (use r False in simp_all)
    then show ?thesis using False by (simp add: q_def r_def)
  qed
qed


lemma mod_400_100: "(y::int) mod 400 = 0 \<Longrightarrow> y mod 100 = 0"
  using dvd_trans [of 100 400 y] by (simp add: mod_eq_0_iff_dvd)

lemma mod_100_4: "(y::int) mod 100 = 0 \<Longrightarrow> y mod 4 = 0"
  using dvd_trans [of 4 100 y] by (simp add: mod_eq_0_iff_dvd)

lemma days_before_year_step:
  "days_before_year (y + 1) = days_before_year y + 365 + (if is_leap y then 1 else 0)"
proof -
  define a :: int where "a = (if y mod 4 = 0 then 1 else 0)"
  define b :: int where "b = (if y mod 100 = 0 then 1 else 0)"
  define c :: int where "c = (if y mod 400 = 0 then 1 else 0)"
  have d4: "y div 4 = (y - 1) div 4 + a"
    using div_step [of 4 "y - 1"] by (simp add: a_def)
  have d100: "y div 100 = (y - 1) div 100 + b"
    using div_step [of 100 "y - 1"] by (simp add: b_def)
  have d400: "y div 400 = (y - 1) div 400 + c"
    using div_step [of 400 "y - 1"] by (simp add: c_def)
  have leap: "(if is_leap y then 1 else 0) = a - b + c"
    using mod_400_100 [of y] mod_100_4 [of y] by (simp add: is_leap_def a_def b_def c_def)
  have "days_before_year (y + 1) = y * 365 + y div 4 - y div 100 + y div 400"
    by (simp add: days_before_year_def)
  also have "\<dots> = ((y - 1) * 365 + (y - 1) div 4 - (y - 1) div 100 + (y - 1) div 400)
      + 365 + (a - b + c)"
    unfolding d4 d100 d400 by (simp add: algebra_simps)
  also have "\<dots> = days_before_year y + 365 + (if is_leap y then 1 else 0)"
    by (simp only: leap days_before_year_def Let_def)
  finally show ?thesis .
qed

lemma days_before_year_mono:
  assumes "y \<le> y'"
  shows "days_before_year y \<le> days_before_year y'"
  using assms
proof (induction y' rule: int_ge_induct)
  case base
  show ?case by simp
next
  case (step i)
  then show ?case by (simp add: days_before_year_step)
qed

lemma days_before_month_step:
  assumes "1 \<le> m" and "m \<le> 11"
  shows "days_before_month y (m + 1) = days_before_month y m + days_in_month y m"
proof -
  from assms have "1 \<le> m" and "m \<le> 12" by simp_all
  then show ?thesis
    using assms(2) by (cases m rule: month_cases) (simp_all add: days_before_month_def days_in_month_def)
qed

lemma days_before_month_mono:
  assumes "1 \<le> m" and "m \<le> m'" and "m' \<le> 12"
  shows "days_before_month y m \<le> days_before_month y m'"
  using assms(2,1,3)
proof (induction m' rule: int_ge_induct)
  case base
  show ?case by simp
next
  case (step i)
  have "0 \<le> days_in_month y i" by (simp add: days_in_month_def)
  then show ?case using step by (simp add: days_before_month_step)
qed

lemma days_before_month_last:
  "days_before_month y 12 + days_in_month y 12 = 365 + (if is_leap y then 1 else 0)"
  by (simp add: days_before_month_def days_in_month_def)

lemma day_of_year_bounds:
  assumes "valid_date d"
  shows "1 \<le> days_before_month (year d) (month d) + day d"
    and "days_before_month (year d) (month d) + day d
         \<le> 365 + (if is_leap (year d) then 1 else 0)"
proof -
  from assms have m: "1 \<le> month d" "month d \<le> 12"
    and dd: "1 \<le> day d" "day d \<le> days_in_month (year d) (month d)"
    by (simp_all add: valid_date_def)
  have "days_before_month (year d) 1 \<le> days_before_month (year d) (month d)"
    using m by (intro days_before_month_mono) simp_all
  then show "1 \<le> days_before_month (year d) (month d) + day d"
    using dd(1) by (simp add: days_before_month_def)
  have "days_before_month (year d) (month d) + days_in_month (year d) (month d)
        \<le> days_before_month (year d) 12 + days_in_month (year d) 12"
  proof (cases "month d = 12")
    case True
    then show ?thesis by simp
  next
    case False
    then have "month d \<le> 11" using m by simp
    then have "days_before_month (year d) (month d) + days_in_month (year d) (month d)
               = days_before_month (year d) (month d + 1)"
      using m by (simp add: days_before_month_step)
    also have "\<dots> \<le> days_before_month (year d) 12"
      using m \<open>month d \<le> 11\<close> by (intro days_before_month_mono) simp_all
    also have "\<dots> \<le> days_before_month (year d) 12 + days_in_month (year d) 12"
      by (simp add: days_in_month_def)
    finally show ?thesis .
  qed
  then show "days_before_month (year d) (month d) + day d
             \<le> 365 + (if is_leap (year d) then 1 else 0)"
    using dd(2) unfolding days_before_month_last by linarith
qed

lemma toordinal_bounds:
  assumes "valid_date d"
  shows "1 \<le> toordinal d" and "toordinal d \<le> 3652059"
proof -
  from assms have y: "1 \<le> year d" "year d \<le> 9999" by (simp_all add: valid_date_def)
  have lo: "days_before_year 1 \<le> days_before_year (year d)"
    using y(1) by (rule days_before_year_mono)
  have "days_before_year (year d + 1) \<le> days_before_year 10000"
    using y(2) by (intro days_before_year_mono) simp
  then have hi: "days_before_year (year d) + 365 + (if is_leap (year d) then 1 else 0)
                 \<le> days_before_year 10000"
    by (simp only: days_before_year_step)
  have v1: "days_before_year 1 = 0" and v2: "days_before_year 10000 = 3652059"
    by (simp_all add: days_before_year_def)
  show "1 \<le> toordinal d"
    using lo day_of_year_bounds(1) [OF assms] unfolding toordinal_def v1 by linarith
  show "toordinal d \<le> 3652059"
    using hi day_of_year_bounds(2) [OF assms] unfolding toordinal_def v2 by linarith
qed

lemma date_sub_valid:
  assumes "valid_date a" and "valid_date b"
  shows "date_sub a b = Inr (toordinal a - toordinal b)"
  using toordinal_bounds [OF assms(1)] toordinal_bounds [OF assms(2)]
  by (simp add: date_sub_def Let_def)

lemma toordinal_strict_mono:
  assumes "valid_date a" and "valid_date b" and "date_lt a b"
  shows "toordinal a < toordinal b"
proof -
  from assms(1) have ma: "1 \<le> month a" "month a \<le> 12"
    and da: "1 \<le> day a" "day a \<le> days_in_month (year a) (month a)"
    by (simp_all add: valid_date_def)
  from assms(2) have mb: "1 \<le> month b" "month b \<le> 12"
    and db: "1 \<le> day b" by (simp_all add: valid_date_def)
  consider (y) "year a < year b"
    | (m) "year a = year b" "month a < month b"
    | (d) "year a = year b" "month a = month b" "day a < day b"
    using assms(3) by (auto simp add: date_lt_def)
  then show ?thesis
  proof cases
    case y
    then have "days_before_year (year a + 1) \<le> days_before_year (year b)"
      by (intro days_before_year_mono) simp
    then have "days_before_year (year a) + 365 + (if is_leap (year a) then 1 else 0)
               \<le> days_before_year (year b)"
      by (simp only: days_before_year_step)
    then show ?thesis
      using day_of_year_bounds(2) [OF assms(1)] day_of_year_bounds(1) [OF assms(2)]
      unfolding toordinal_def by linarith
  next
    case m
    then have "month a \<le> 11" using mb by simp
    then have "days_before_month (year a) (month a) + days_in_month (year a) (month a)
               = days_before_month (year a) (month a + 1)"
      using ma by (simp add: days_before_month_step)
    also have "\<dots> \<le> days_before_month (year a) (month b)"
      using ma mb m by (intro days_before_month_mono) simp_all
    finally have "days_before_month (year a) (month a) + days_in_month (year a) (month a)
                  \<le> days_before_month (year a) (month b)" .
    then show ?thesis
      using da db by (simp add: toordinal_def m(1) [symmetric])
  next
    case d
    then show ?thesis by (simp add: toordinal_def)
  qed
qed

lemma date_le_iff_toordinal:
  assumes "valid_date a" and "valid_date b"
  shows "date_le a b \<longleftrightarrow> toordinal a \<le> toordinal b"
proof
  assume "date_le a b"
  then show "toordinal a \<le> toordinal b"
    using toordinal_strict_mono [OF assms] by (auto simp add: date_le_def)
next
  assume le: "toordinal a \<le> toordinal b"
  show "date_le a b"
  proof (rule ccontr)
    assume n: "\<not> date_le a b"
    then have "date_lt b a"
      by (auto simp add: date_le_def date_lt_def not_less intro: date.equality)
    then have "toordinal b < toordinal a"
      using toordinal_strict_mono [OF assms(2,1)] by simp
    then show False using le by simp
  qed
qed

section \<open>The arithmetic operations on the values that occur\<close>

lemma round_double_fixed_div:
  assumes "\<bar>n\<bar> < 2 ^ 53" and "j \<le> 1074"
  shows "round_double (of_int n / 2 ^ j) = of_int n / 2 ^ j"
proof -
  have "(2::rat) powi (- int j) = 1 / 2 ^ j"
    by (simp add: power_int_minus divide_inverse)
  then have "of_int n * 2 powi (- int j) = (of_int n / 2 ^ j :: rat)" by simp
  moreover have "round_double (of_int n * 2 powi (- int j)) = of_int n * 2 powi (- int j)"
    using assms by (intro round_double_fixed) simp_all
  ultimately show ?thesis by simp
qed

lemma round_double_upper:
  assumes "0 \<le> x" and "x \<le> of_int n / 2 ^ j" and "\<bar>n\<bar> < 2 ^ 53" and "j \<le> 1074"
  shows "round_double x \<le> of_int n / 2 ^ j"
  using round_double_mono [OF assms(1,2)] round_double_fixed_div [OF assms(3,4)] by simp

lemma round_double_lower:
  assumes "0 \<le> of_int n / (2 ^ j :: rat)" and "of_int n / 2 ^ j \<le> x"
    and "\<bar>n\<bar> < 2 ^ 53" and "j \<le> 1074"
  shows "of_int n / 2 ^ j \<le> round_double x"
  using round_double_mono [OF assms(1,2)] round_double_fixed_div [OF assms(3,4)] by simp

lemma max_double_ge: "2 ^ 53 \<le> max_double"
proof -
  have "(1::rat) \<le> 2 ^ 971" by (rule one_le_power) simp
  then have "(2 ^ 53 - 1) * (1::rat) \<le> (2 ^ 53 - 1) * 2 ^ 971"
    by (intro mult_left_mono) simp_all
  moreover have "(2::rat) ^ 53 \<le> (2 ^ 53 - 1) * 2 ^ 971"
  proof -
    have "(2::rat) ^ 53 \<le> (2 ^ 53 - 1) * 2" by simp
    also have "\<dots> \<le> (2 ^ 53 - 1) * 2 ^ 971"
      by (intro mult_left_mono) (simp_all add: self_le_power)
    finally show ?thesis .
  qed
  ultimately show ?thesis by (simp only: max_double_def)
qed

lemma float_of_int_small:
  assumes "\<bar>n\<bar> < 2 ^ 53"
  shows "float_of_int n = Inr (of_int n)"
proof -
  have "\<bar>of_int n :: rat\<bar> = of_int \<bar>n\<bar>" by simp
  also have "\<dots> \<le> of_int (2 ^ 53)" using assms by (simp only: of_int_le_iff)
  also have "\<dots> \<le> max_double" using max_double_ge by simp
  finally have "\<not> max_double < \<bar>of_int n :: rat\<bar>" by simp
  then show ?thesis
    by (simp add: float_of_int_def round_double_of_int [OF assms] Let_def)
qed

lemma int_truediv_small:
  assumes "0 \<le> a" and "a < 2 ^ 53" and "0 < b"
  shows "int_truediv a b = Inr (round_double (of_int a / of_int b))"
proof -
  let ?x = "of_int a / of_int b :: rat"
  have b1: "(1::rat) \<le> of_int b" using assms(3) by simp
  have x0: "0 \<le> ?x" using assms by simp
  have "?x \<le> of_int a / 1"
    using b1 assms(1) by (intro divide_left_mono) simp_all
  then have xa: "?x \<le> of_int a" by simp
  have "round_double ?x \<le> round_double (of_int a)"
    using x0 xa by (rule round_double_mono)
  also have "\<dots> = of_int a"
    using assms by (intro round_double_of_int) simp
  also have "\<dots> \<le> of_int (2 ^ 53)" using assms(2) by (simp only: of_int_le_iff)
  also have "\<dots> \<le> max_double" using max_double_ge by simp
  finally have "round_double ?x \<le> max_double" .
  moreover have "0 \<le> round_double ?x" using x0 by (rule round_double_nonneg)
  ultimately have "\<not> max_double < \<bar>round_double ?x\<bar>" by simp
  then show ?thesis using assms(3) by (simp add: int_truediv_def Let_def)
qed

lemma ceil_round_double_div_100:
  assumes "0 < n" and "n < 2 ^ 45"
  shows "py_ceil (round_double (of_int n / 100)) = (n + 99) div 100"
proof -
  define k where "k = n div 100"
  define r where "r = n mod 100"
  have n: "n = 100 * k + r" by (simp add: k_def r_def)
  have r: "0 \<le> r" "r < 100" by (simp_all add: r_def)
  have k0: "0 \<le> k" using assms(1) by (simp add: k_def pos_imp_zdiv_nonneg_iff)
  have "k \<le> n" using n r(1) k0 by linarith
  then have k: "0 \<le> k" "k < 2 ^ 45" using k0 assms(2) by simp_all
  have x: "(of_int n / 100 :: rat) = of_int k + of_int r / 100"
    by (simp add: n add_divide_distrib)
  show ?thesis
  proof (cases "r = 0")
    case True
    have "round_double (of_int n / 100) = of_int k"
      using k by (simp add: x True round_double_of_int)
    moreover have "(n + 99) div 100 = k" using True by (simp add: n)
    ultimately show ?thesis by (simp add: py_ceil_def)
  next
    case False
    then have r1: "1 \<le> r" using r by simp
    have lo: "of_int (128 * k + 1) / 2 ^ 7 \<le> (of_int n / 100 :: rat)"
    proof -
      have "(1::rat) / 128 \<le> 1 / 100" by simp
      also have "\<dots> \<le> of_int r / 100" using r1 by (simp add: divide_right_mono)
      finally show ?thesis by (simp add: x add_divide_distrib)
    qed
    have hi: "(of_int n / 100 :: rat) \<le> of_int (k + 1) / 2 ^ 0"
    proof -
      have "(of_int r :: rat) \<le> 100" using r by simp
      then have "(of_int r / 100 :: rat) \<le> 1" by simp
      then show ?thesis by (simp add: x)
    qed
    have x0: "(0::rat) \<le> of_int n / 100" using assms by simp
    have "of_int (128 * k + 1) / 2 ^ 7 \<le> round_double (of_int n / 100)"
      using lo k by (intro round_double_lower) simp_all
    then have gt: "of_int (k + 1) - 1 < round_double (of_int n / 100)"
      by (simp add: add_divide_distrib)
    have "round_double (of_int n / 100) \<le> of_int (k + 1) / 2 ^ 0"
      using x0 hi k by (intro round_double_upper) simp_all
    then have le: "round_double (of_int n / 100) \<le> of_int (k + 1)" by simp
    have "\<lceil>round_double (of_int n / 100)\<rceil> = k + 1"
      using gt le by (rule ceiling_unique)
    moreover have "(n + 99) div 100 = k + 1"
      using r r1 by (simp add: n) 
    ultimately show ?thesis by (simp add: py_ceil_def)
  qed
qed

lemma add_int_float_small:
  "\<bar>k\<bar> < 2 ^ 53 \<Longrightarrow> add_int_float k x = Inr (round_double (of_int k + x))"
  by (simp add: add_int_float_def float_of_int_small float_add_def)

lemma div_float_int_small:
  "\<bar>n\<bar> < 2 ^ 53 \<Longrightarrow> n \<noteq> 0 \<Longrightarrow> div_float_int x n = Inr (round_double (x / of_int n))"
  by (simp add: div_float_int_def float_of_int_small float_truediv_def)

lemma fractional_seconds_bounds:
  assumes "0 \<le> microsecond dt" and "microsecond dt \<le> 999999"
  shows "0 \<le> fractional_seconds dt" and "fractional_seconds dt \<le> 1048575 / 1048576"
proof -
  let ?x = "of_int (microsecond dt) / 1000000 :: rat"
  have x0: "0 \<le> ?x" using assms(1) by simp
  have "(of_int (microsecond dt) :: rat) \<le> of_int 999999"
    using assms(2) by (simp only: of_int_le_iff)
  then have "?x \<le> 999999 / 1000000" by (simp add: divide_right_mono)
  also have "\<dots> \<le> of_int 1048575 / 2 ^ 20" by simp
  finally have "round_double ?x \<le> of_int 1048575 / 2 ^ 20"
    using x0 by (intro round_double_upper) simp_all
  then show "fractional_seconds dt \<le> 1048575 / 1048576"
    by (simp add: fractional_seconds_def)
  show "0 \<le> fractional_seconds dt"
    unfolding fractional_seconds_def using x0 by (rule round_double_nonneg)
qed

lemma seconds_sum_bounds:
  assumes "0 \<le> k" and "k < d" and "d \<le> 2 ^ 17" and "0 \<le> f" and "f \<le> 1048575 / 1048576"
  shows "0 \<le> round_double (of_int k + f)"
    and "round_double (of_int k + f) \<le> of_int (d * 2 ^ 20 - 1) / 2 ^ 20"
proof -
  have x0: "0 \<le> of_int k + f" using assms(1,4) by simp
  then show "0 \<le> round_double (of_int k + f)" by (rule round_double_nonneg)
  have "k + 1 \<le> d" using assms(2) by simp
  then have "(of_int (k + 1) :: rat) \<le> of_int d" by (simp only: of_int_le_iff)
  then have "(of_int k :: rat) \<le> of_int d - 1" by simp
  then have "of_int k + f \<le> of_int d - 1 + 1048575 / 1048576"
    using assms(5) by linarith
  also have "\<dots> = of_int (d * 2 ^ 20 - 1) / 2 ^ 20"
    by (simp add: diff_divide_distrib)
  finally have le: "of_int k + f \<le> of_int (d * 2 ^ 20 - 1) / 2 ^ 20" .
  have "0 < d" using assms(1,2) by simp
  moreover have "d * 2 ^ 20 \<le> 2 ^ 17 * 2 ^ 20"
    using assms(3) by (intro mult_right_mono) simp_all
  ultimately have "\<bar>d * 2 ^ 20 - 1\<bar> < 2 ^ 53" by simp
  then show "round_double (of_int k + f) \<le> of_int (d * 2 ^ 20 - 1) / 2 ^ 20"
    using x0 le by (intro round_double_upper) simp_all
qed

lemma percent_bounds:
  assumes "0 < d" and "d \<le> 2 ^ 17" and "0 \<le> s"
    and "s \<le> of_int (d * 2 ^ 20 - 1) / 2 ^ 20"
  shows "0 \<le> round_double (round_double (s / of_int d) * 100)"
    and "round_double (round_double (s / of_int d) * 100) < 100"
proof -
  have dp: "(0::rat) < of_int d" using assms(1) by simp
  have q0: "0 \<le> s / of_int d" using assms(1,3) by simp
  then have r0: "0 \<le> round_double (s / of_int d)" by (rule round_double_nonneg)
  then have p0: "0 \<le> round_double (s / of_int d) * 100" by simp
  then show "0 \<le> round_double (round_double (s / of_int d) * 100)"
    by (rule round_double_nonneg)
  have "(of_int d :: rat) \<le> of_int (2 ^ 17)" using assms(2) by (simp only: of_int_le_iff)
  then have d17: "(of_int d :: rat) \<le> 2 ^ 17" by simp
  have "s / of_int d \<le> (of_int (d * 2 ^ 20 - 1) / 2 ^ 20) / of_int d"
    by (rule divide_right_mono [OF assms(4)]) (use dp in simp)
  also have "\<dots> = 1 - 1 / (2 ^ 20 * of_int d)"
    using dp by (simp add: field_simps)
  also have "\<dots> \<le> 1 - 1 / (2 ^ 20 * 2 ^ 17)"
  proof -
    have "(2::rat) ^ 20 * of_int d \<le> 2 ^ 20 * 2 ^ 17" using d17 by simp
    moreover have "(0::rat) < 2 ^ 20 * of_int d" using dp by simp
    ultimately have "1 / (2 ^ 20 * 2 ^ 17) \<le> 1 / (2 ^ 20 * of_int d :: rat)"
      by (intro divide_left_mono) simp_all
    then show ?thesis by linarith
  qed
  also have "\<dots> = of_int (2 ^ 37 - 1) / 2 ^ 37" by simp
  finally have "round_double (s / of_int d) \<le> of_int (2 ^ 37 - 1) / 2 ^ 37"
    using q0 by (intro round_double_upper) simp_all
  then have "round_double (s / of_int d) * 100 \<le> of_int (2 ^ 37 - 1) / 2 ^ 37 * 100"
    by simp
  also have "\<dots> \<le> of_int (100 * 2 ^ 31 - 1) / 2 ^ 31" by simp
  finally have "round_double (round_double (s / of_int d) * 100)
                \<le> of_int (100 * 2 ^ 31 - 1) / 2 ^ 31"
    using p0 by (intro round_double_upper) simp_all
  also have "\<dots> < 100" by simp
  finally show "round_double (round_double (s / of_int d) * 100) < 100" .
qed

lemma next_hundred_closed:
  fixes n :: int
  assumes "0 < n"
  shows "(if (n + 99) div 100 * 100 = n then (n + 99) div 100 * 100 + 100
          else (n + 99) div 100 * 100) = 100 * (n div 100 + 1)"
proof -
  define k where "k = n div 100"
  define r where "r = n mod 100"
  have n: "n = 100 * k + r" by (simp add: k_def r_def)
  have r: "0 \<le> r" "r < 100" by (simp_all add: r_def)
  show ?thesis
  proof (cases "r = 0")
    case True
    then have "(n + 99) div 100 = k" by (simp add: n)
    then show ?thesis using True by (simp add: k_def [symmetric]) (simp add: n)
  next
    case False
    then have "(n + 99) div 100 = k + 1" using r by (simp add: n)
    then show ?thesis using False r by (simp add: k_def [symmetric]) (simp add: n)
  qed
qed

section \<open>The rounding error of the percentages\<close>

lemma round_half_even_error: "\<bar>of_int (round_half_even x) - x\<bar> \<le> 1 / 2"
proof -
  have "of_int \<lfloor>x\<rfloor> \<le> x" "x < of_int \<lfloor>x\<rfloor> + 1" by linarith+
  then show ?thesis by (auto simp add: round_half_even_def Let_def)
qed

lemma quantum_le:
  assumes "x \<noteq> 0" and "\<bar>x\<bar> < 2 powi (k + 1)" and "- 1022 \<le> k"
  shows "quantum x \<le> 2 powi (k - 52)"
proof -
  have "(2::rat) powi binade x < 2 powi (k + 1)"
    using binade_bounds(1) [OF assms(1)] assms(2) by linarith
  then have "binade x < k + 1" by (rule two_powi_less_imp)
  then have "max (binade x) (- 1022) - 52 \<le> k - 52" using assms(3) by simp
  then show ?thesis unfolding quantum_def by (rule two_powi_mono)
qed

lemma round_double_error:
  assumes "\<bar>x\<bar> < 2 ^ j"
  shows "\<bar>round_double x - x\<bar> \<le> 2 ^ j / 2 ^ 54"
proof (cases "x = 0")
  case True
  then show ?thesis by (simp add: round_double_def)
next
  case False
  define q where "q = quantum x"
  have qp: "0 < q" by (simp add: q_def quantum_pos)
  have "\<bar>x\<bar> < 2 powi (int j - 1 + 1)" using assms by simp
  then have "q \<le> 2 powi (int j - 1 - 52)"
    unfolding q_def using False by (intro quantum_le) simp_all
  also have "\<dots> = 2 powi (int j) / 2 powi 53"
    by (simp add: power_int_diff)
  finally have q_le: "q \<le> 2 ^ j / 2 ^ 53" by simp
  have "round_double x - x = (of_int (round_half_even (x / q)) - x / q) * q"
    using False qp by (simp add: round_double_def q_def [symmetric] algebra_simps)
  then have "\<bar>round_double x - x\<bar> = \<bar>of_int (round_half_even (x / q)) - x / q\<bar> * q"
    using qp by (simp add: abs_mult)
  also have "\<dots> \<le> 1 / 2 * q"
    using round_half_even_error [of "x / q"] qp by (intro mult_right_mono) simp_all
  also have "\<dots> \<le> 1 / 2 * (2 ^ j / 2 ^ 53)"
    using q_le by (intro mult_left_mono) simp_all
  also have "\<dots> = 2 ^ j / 2 ^ 54" by simp
  finally show ?thesis .
qed

lemma percent_error:
  fixes K d us :: int and j :: nat
  assumes "0 \<le> K" and "K < d" and "d \<le> 2 ^ 17" and "of_int d \<le> (2 ^ j :: rat)"
    and "(2 ^ j :: rat) + 1 \<le> 2 * of_int d"
    and "0 \<le> us" and "us \<le> 999999"
  defines "f \<equiv> round_double (of_int us / 1000000)"
  shows "\<bar>round_double (round_double (round_double (of_int K + f) / of_int d) * 100)
          - (of_int K + of_int us / 1000000) / of_int d * 100\<bar> \<le> 1 / 2 ^ 45"
proof -
  define F :: rat where "F = of_int us / 1000000"
  define A where "A = of_int K + f"
  define a where "a = round_double A"
  define B where "B = a / of_int d"
  define b where "b = round_double B"
  define C where "C = b * 100"
  define c where "c = round_double C"
  define g :: rat where "g = 100 / of_int d"
  have dpos: "0 < d" using assms(1,2) by simp
  then have dp: "(0::rat) < of_int d" by simp
  have gp: "0 < g" using dp by (simp add: g_def)
  have F0: "0 \<le> F" using assms(6) by (simp add: F_def)
  have "(of_int us :: rat) \<le> of_int 999999" using assms(7) by (simp only: of_int_le_iff)
  then have F9: "F \<le> 999999 / 1000000" by (simp add: F_def)
  then have F1: "F < 1" by simp
  have eF: "\<bar>f - F\<bar> \<le> 1 / 2 ^ 54"
    using round_double_error [of F 0] F0 F1 by (simp add: f_def F_def)
  have f0: "0 \<le> f" unfolding f_def F_def [symmetric] using F0 by (rule round_double_nonneg)
  have "F \<le> of_int 1048575 / 2 ^ 20" using F9 by simp
  then have "f \<le> of_int 1048575 / 2 ^ 20"
    unfolding f_def F_def [symmetric] using F0
    by (intro round_double_upper) simp_all
  then have f1: "f \<le> 1048575 / 1048576" by simp
  note sb = seconds_sum_bounds [OF assms(1,2,3) f0 f1]
  have A0: "0 \<le> A" using assms(1) f0 by (simp add: A_def)
  have "(of_int K :: rat) \<le> of_int (d - 1)" using assms(2) by (simp only: of_int_le_iff)
  then have "A < of_int d" using f1 by (simp add: A_def)
  then have A1: "\<bar>A\<bar> < 2 ^ j" using A0 assms(4) by linarith
  have eA: "\<bar>a - A\<bar> \<le> 2 ^ j / 2 ^ 54"
    unfolding a_def using A1 by (rule round_double_error)
  have a0: "0 \<le> a" using sb(1) by (simp add: a_def A_def)
  have "a \<le> of_int (d * 2 ^ 20 - 1) / 2 ^ 20" using sb(2) by (simp add: a_def A_def)
  also have "\<dots> < of_int d" by (simp add: field_simps)
  finally have a1: "a < of_int d" .
  have B0: "0 \<le> B" using a0 dp by (simp add: B_def)
  have B1: "B < 1" using a1 dp by (simp add: B_def)
  have eB: "\<bar>b - B\<bar> \<le> 1 / 2 ^ 54"
    using round_double_error [of B 0] B0 B1 by (simp add: b_def)
  have b0: "0 \<le> b" unfolding b_def using B0 by (rule round_double_nonneg)
  have "b \<le> of_int 1 / 2 ^ 0"
    unfolding b_def using B0 B1 by (intro round_double_upper) simp_all
  then have b1: "b \<le> 1" by simp
  have "\<bar>C\<bar> < 2 ^ 7" using b0 b1 by (simp add: C_def)
  then have "\<bar>c - C\<bar> \<le> 2 ^ 7 / 2 ^ 54"
    unfolding c_def by (rule round_double_error)
  then have eC: "\<bar>c - C\<bar> \<le> 128 / 2 ^ 54" by simp
  have "\<bar>(a - A) + (f - F)\<bar> \<le> \<bar>a - A\<bar> + \<bar>f - F\<bar>"
    by (rule abs_triangle_ineq)
  also have "\<dots> \<le> 2 ^ j / 2 ^ 54 + 1 / 2 ^ 54"
    using eA eF by (rule add_mono)
  also have "\<dots> = (2 ^ j + 1) / 2 ^ 54"
    by (simp only: add_divide_distrib)
  finally have "\<bar>(a - A) + (f - F)\<bar> \<le> (2 ^ j + 1) / 2 ^ 54" .
  then have "g * \<bar>(a - A) + (f - F)\<bar> \<le> g * ((2 ^ j + 1) / 2 ^ 54)"
    using gp by (intro mult_left_mono) simp_all
  also have "\<dots> = (g * (2 ^ j + 1)) / 2 ^ 54" by simp
  also have "\<dots> \<le> 200 / 2 ^ 54"
  proof -
    have "g * (2 ^ j + 1) \<le> g * (2 * of_int d)"
      using assms(5) gp by (intro mult_left_mono) simp_all
    also have "\<dots> = 200" using dp by (simp add: g_def)
    finally show ?thesis by (simp add: divide_right_mono)
  qed
  finally have eG: "\<bar>g * ((a - A) + (f - F))\<bar> \<le> 200 / 2 ^ 54"
    using gp by (simp add: abs_mult)
  define x1 where "x1 = c - C"
  define x2 where "x2 = b - B"
  define x3 where "x3 = g * ((a - A) + (f - F))"
  have dec: "c - (of_int K + F) / of_int d * 100 = x1 + 100 * x2 + x3"
    using dp by (simp add: x1_def x2_def x3_def C_def B_def A_def g_def field_simps)
  have "\<bar>x1 + 100 * x2 + x3\<bar> \<le> \<bar>x1\<bar> + 100 * \<bar>x2\<bar> + \<bar>x3\<bar>"
    by linarith
  also have "\<dots> \<le> 128 / 2 ^ 54 + 100 * (1 / 2 ^ 54) + 200 / 2 ^ 54"
    using eC eB eG unfolding x1_def [symmetric] x2_def [symmetric] x3_def [symmetric]
    by linarith
  finally have "\<bar>c - (of_int K + F) / of_int d * 100\<bar> \<le> 128 / 2 ^ 54
      + 100 * (1 / 2 ^ 54) + 200 / 2 ^ 54"
    by (simp only: dec)
  also have "\<dots> \<le> 1 / 2 ^ 45" by simp
  finally show ?thesis
    by (simp only: c_def C_def b_def B_def a_def A_def F_def)
qed

section \<open>What compute_time_stats returns\<close>

lemma clamp_days: "(if d < 0 then 0 else d) = max 0 (d::int)"
  by simp

lemma days_alive_range:
  assumes "valid_date a" and "valid_date b"
  shows "max 0 (toordinal a - toordinal b) < 2 ^ 45"
proof -
  have "toordinal a - toordinal b \<le> 3652058"
    using toordinal_bounds(2) [OF assms(1)] toordinal_bounds(1) [OF assms(2)] by linarith
  then show ?thesis by simp
qed

lemma next_multiple_gt:
  fixes n :: int
  shows "n < 100 * (n div 100 + 1)"
proof -
  define k where "k = n div 100"
  define r where "r = n mod 100"
  have "n = 100 * k + r" by (simp add: k_def r_def)
  moreover have "r < 100" by (simp add: r_def)
  ultimately have "n < 100 * (k + 1)" by simp
  then show ?thesis by (simp only: k_def)
qed

lemma next_hundred_value:
  assumes "0 \<le> n" and "n < 2 ^ 45"
  shows "(if n = 0 then Inr 100
          else bind (int_truediv n 100) (\<lambda>q.
               let next_hundred = py_ceil q * 100
               in Inr (if next_hundred = n then next_hundred + 100 else next_hundred)))
         = (Inr (100 * (n div 100 + 1)) :: error + int)"
proof (cases "n = 0")
  case True
  then show ?thesis by simp
next
  case False
  then have pos: "0 < n" using assms(1) by simp
  have "n < 2 ^ 53" using assms(2) by simp
  then have td: "int_truediv n 100 = Inr (round_double (of_int n / 100))"
    using int_truediv_small [of n 100] assms(1) by simp
  have "(if n = 0 then Inr 100
          else bind (int_truediv n 100) (\<lambda>q.
               let next_hundred = py_ceil q * 100
               in Inr (if next_hundred = n then next_hundred + 100 else next_hundred)))
        = (Inr (if (n + 99) div 100 * 100 = n then (n + 99) div 100 * 100 + 100
                else (n + 99) div 100 * 100) :: error + int)"
    using False by (simp add: td ceil_round_double_div_100 [OF pos assms(2)] Let_def)
  then show ?thesis by (simp only: next_hundred_closed [OF pos])
qed

lemma milestone_cases:
  fixes n :: int
  assumes "0 < n"
  shows "(n + 99) div 100 * 100 = n \<Longrightarrow> n + 100 = 100 * (n div 100 + 1)"
    and "(n + 99) div 100 * 100 \<noteq> n \<Longrightarrow> (n + 99) div 100 * 100 = 100 * (n div 100 + 1)"
  using next_hundred_closed [OF assms] by (simp_all split: if_splits)

lemma compute_time_stats_en_value:
  assumes "valid_datetime (clock w)" and "valid_date birthdate"
  shows "compute_time_stats_en w birthdate =
    (Inr \<lparr>now = clock w,
          hour_pct = spec_hour_pct (minute (clock w)) (second (clock w))
                       (fractional_seconds (clock w)),
          day_pct = spec_day_pct (hour (clock w)) (minute (clock w)) (second (clock w))
                      (fractional_seconds (clock w)),
          days_alive = max 0 (toordinal (date_of (clock w)) - toordinal birthdate),
          next_hundred =
            100 * (max 0 (toordinal (date_of (clock w)) - toordinal birthdate) div 100 + 1),
          days_to_next =
            100 * (max 0 (toordinal (date_of (clock w)) - toordinal birthdate) div 100 + 1)
            - max 0 (toordinal (date_of (clock w)) - toordinal birthdate)\<rparr>,
     w)"
proof -
  define t where "t = clock w"
  define D where "D = toordinal (date_of t) - toordinal birthdate"
  from assms(1) have vd: "valid_date (date_of t)"
    and h: "0 \<le> hour t" "hour t \<le> 23"
    and m: "0 \<le> minute t" "minute t \<le> 59"
    and s: "0 \<le> second t" "second t \<le> 59"
    and u: "0 \<le> microsecond t" "microsecond t \<le> 999999"
    by (simp_all add: valid_datetime_def t_def)
  have frac: "int_truediv (microsecond t) 1000000 = Inr (fractional_seconds t)"
    using int_truediv_small [of "microsecond t" 1000000] u
    by (simp add: fractional_seconds_def)
  have k1: "\<bar>minute t * 60 + second t\<bar> < 2 ^ 53" using m s by simp
  have k2: "\<bar>hour t * 3600 + minute t * 60 + second t\<bar> < 2 ^ 53" using h m s by simp
  have sub: "date_sub (date_of t) birthdate = Inr D"
    unfolding D_def using vd assms(2) by (rule date_sub_valid)
  have D45: "max 0 D < 2 ^ 45" unfolding D_def using vd assms(2) by (rule days_alive_range)
  show ?thesis
  proof (cases "D \<le> 0")
    case True
    then have z: "max 0 D = 0" by simp
    show ?thesis
      unfolding compute_time_stats_en_def datetime_now_def t_def [symmetric]
        D_def [symmetric] z
      using True
      by (simp add: Let_def frac add_int_float_small [OF k1] add_int_float_small [OF k2]
          div_float_int_small sub spec_hour_pct_def spec_day_pct_def float_mul_def)
  next
    case False
    then have pos: "0 < D" and z: "max 0 D = D" by simp_all
    have D45': "D < 2 ^ 45" using D45 z by simp
    then have "D < 2 ^ 53" by simp
    then have td: "int_truediv D 100 = Inr (round_double (of_int D / 100))"
      using int_truediv_small [of D 100] pos by simp
    note cl = ceil_round_double_div_100 [OF pos D45']
    have gap: "D < 100 * (D div 100) + 100" using next_multiple_gt [of D] by simp
    show ?thesis
      unfolding compute_time_stats_en_def datetime_now_def t_def [symmetric]
        D_def [symmetric] z
      using pos milestone_cases [OF pos] gap
      by (simp add: Let_def frac add_int_float_small [OF k1] add_int_float_small [OF k2]
          div_float_int_small sub td cl spec_hour_pct_def spec_day_pct_def float_mul_def)
  qed
qed

lemma compute_time_stats_release_value:
  assumes "valid_datetime (clock w)" and "valid_date birthdate"
  shows "compute_time_stats_release w birthdate =
    (Inr \<lparr>now = clock w,
          hour_pct = spec_hour_pct (minute (clock w)) (second (clock w))
                       (fractional_seconds (clock w)),
          day_pct = spec_day_pct (hour (clock w)) (minute (clock w)) (second (clock w))
                      (fractional_seconds (clock w)),
          days_alive = max 0 (toordinal (date_of (clock w)) - toordinal birthdate),
          next_hundred =
            100 * (max 0 (toordinal (date_of (clock w)) - toordinal birthdate) div 100 + 1),
          days_to_next =
            100 * (max 0 (toordinal (date_of (clock w)) - toordinal birthdate) div 100 + 1)
            - max 0 (toordinal (date_of (clock w)) - toordinal birthdate)\<rparr>,
     w)"
proof -
  define t where "t = clock w"
  define D where "D = toordinal (date_of t) - toordinal birthdate"
  from assms(1) have vd: "valid_date (date_of t)"
    and h: "0 \<le> hour t" "hour t \<le> 23"
    and m: "0 \<le> minute t" "minute t \<le> 59"
    and s: "0 \<le> second t" "second t \<le> 59"
    and u: "0 \<le> microsecond t" "microsecond t \<le> 999999"
    by (simp_all add: valid_datetime_def t_def)
  have frac: "int_truediv (microsecond t) 1000000 = Inr (fractional_seconds t)"
    using int_truediv_small [of "microsecond t" 1000000] u
    by (simp add: fractional_seconds_def)
  have k1: "\<bar>minute t * 60 + second t\<bar> < 2 ^ 53" using m s by simp
  have k2: "\<bar>hour t * 3600 + minute t * 60 + second t\<bar> < 2 ^ 53" using h m s by simp
  have sub: "date_sub (date_of t) birthdate = Inr D"
    unfolding D_def using vd assms(2) by (rule date_sub_valid)
  have D45: "max 0 D < 2 ^ 45" unfolding D_def using vd assms(2) by (rule days_alive_range)
  show ?thesis
  proof (cases "D \<le> 0")
    case True
    then have z: "max 0 D = 0" by simp
    show ?thesis
      unfolding compute_time_stats_release_def datetime_now_def t_def [symmetric]
        D_def [symmetric] z
      using True
      by (simp add: Let_def frac add_int_float_small [OF k1] add_int_float_small [OF k2]
          float_truediv_def sub spec_hour_pct_def spec_day_pct_def float_mul_def)
  next
    case False
    then have pos: "0 < D" and z: "max 0 D = D" by simp_all
    have D45': "D < 2 ^ 45" using D45 z by simp
    then have "D < 2 ^ 53" by simp
    then have td: "int_truediv D 100 = Inr (round_double (of_int D / 100))"
      using int_truediv_small [of D 100] pos by simp
    note cl = ceil_round_double_div_100 [OF pos D45']
    have gap: "D < 100 * (D div 100) + 100" using next_multiple_gt [of D] by simp
    show ?thesis
      unfolding compute_time_stats_release_def datetime_now_def t_def [symmetric]
        D_def [symmetric] z
      using pos milestone_cases [OF pos] gap
      by (simp add: Let_def frac add_int_float_small [OF k1] add_int_float_small [OF k2]
          float_truediv_def sub td cl spec_hour_pct_def spec_day_pct_def float_mul_def)
  qed
qed

section \<open>What the configuration loader returns\<close>

lemma date_le_iff_not_lt: "date_le a b \<longleftrightarrow> \<not> date_lt b a"
  by (auto simp add: date_le_def date_lt_def not_less intro: date.equality)

lemma load_birthdate_from_config_editions_agree:
  "load_birthdate_from_config_en w = load_birthdate_from_config_release w"
proof -
  have "bind (date_new y m d) (\<lambda>bd. if date_le bd (date_today w) then Inr (Some bd) else Inr None)
      = bind (date_new y m d) (\<lambda>bd. if date_lt (date_today w) bd then Inr None else Inr (Some bd))"
    for y m d
    by (cases "date_new y m d") (simp_all add: date_le_iff_not_lt)
  moreover have "(if \<not> P then x else y) = (if P then y else x)"
    for P and x y :: "error + date option"
    by simp
  ultimately show ?thesis
    by (simp only: load_birthdate_from_config_en_def
        load_birthdate_from_config_release_def)
qed

lemma load_birthdate_from_config_no_file:
  assumes "config_file w = Missing \<or> config_file w = Unreadable \<or> config_file w = Malformed"
  shows "load_birthdate_from_config_en w = None"
  using assms by (auto simp add: load_birthdate_from_config_en_def path_exists_def json_load_def)

lemma load_birthdate_from_config_object:
  assumes "config_file w = Parsed (JObj items)"
    and "map_of items ''year'' = Some (JInt y)"
    and "map_of items ''month'' = Some (JInt m)"
    and "map_of items ''day'' = Some (JInt d)"
  shows "load_birthdate_from_config_en w =
    (if - (2 ^ 31) \<le> y \<and> y < 2 ^ 31 \<and> - (2 ^ 31) \<le> m \<and> m < 2 ^ 31
        \<and> - (2 ^ 31) \<le> d \<and> d < 2 ^ 31
        \<and> valid_date \<lparr>year = y, month = m, day = d\<rparr>
        \<and> date_le \<lparr>year = y, month = m, day = d\<rparr> (date_today w)
     then Some \<lparr>year = y, month = m, day = d\<rparr> else None)"
  using assms
  by (simp add: load_birthdate_from_config_en_def path_exists_def json_load_def date_new_def)

lemma load_birthdate_from_config_not_object:
  assumes "config_file w = Parsed data" and "dict_get data ''year'' = Inl e"
  shows "load_birthdate_from_config_en w = None"
  using assms
  by (simp add: load_birthdate_from_config_en_def path_exists_def json_load_def)

lemma load_birthdate_from_config_not_int:
  assumes "config_file w = Parsed data"
    and "dict_get data ''year'' = Inr y"
    and "dict_get data ''month'' = Inr m"
    and "dict_get data ''day'' = Inr d"
    and "\<not> (isinstance_int y \<and> isinstance_int m \<and> isinstance_int d)"
  shows "load_birthdate_from_config_en w = None"
  using assms
  by (auto simp add: load_birthdate_from_config_en_def path_exists_def json_load_def)

section \<open>The claims\<close>

lemma example_world_valid: "valid_datetime (clock example_world)"
  by (simp add: example_world_def valid_datetime_def valid_date_def date_of_def
      days_in_month_def)

lemma example_birthdates_valid:
  shows "valid_date birthdate_29_days"
    and "valid_date birthdate_100_days"
    and "valid_date birthdate_future"
  by (simp_all add: birthdate_29_days_def birthdate_100_days_def birthdate_future_def
      valid_date_def days_in_month_def)

lemma round_up_to_hundred:
  fixes n :: int
  shows "(if n mod 100 = 0 then n + 100 else 100 * \<lceil>(of_int n :: rat) / 100\<rceil>)
         = 100 * (n div 100 + 1)"
proof -
  define k where "k = n div 100"
  define r where "r = n mod 100"
  have n: "n = 100 * k + r" by (simp add: k_def r_def)
  have r: "0 \<le> r" "r < 100" by (simp_all add: r_def)
  have x: "(of_int n :: rat) / 100 = of_int k + of_int r / 100"
    by (simp add: n add_divide_distrib)
  show ?thesis
  proof (cases "r = 0")
    case True
    then show ?thesis unfolding k_def [symmetric] r_def [symmetric] by (simp add: n)
  next
    case False
    then have "(0::rat) < of_int r" using r(1) by simp
    then have gt: "of_int (k + 1) - 1 < (of_int n :: rat) / 100" by (simp add: x)
    have "(of_int r :: rat) \<le> 100" using r(2) by simp
    then have le: "(of_int n :: rat) / 100 \<le> of_int (k + 1)" by (simp add: x)
    have "\<lceil>(of_int n :: rat) / 100\<rceil> = k + 1" using gt le by (rule ceiling_unique)
    then show ?thesis
      unfolding k_def [symmetric] r_def [symmetric] using False by simp
  qed
qed

text \<open>
  C1. For every birthdate and every timestamp, \<open>next_hundred\<close> is a multiple of 100
  strictly greater than \<open>days_alive\<close>: it is 100 when \<open>days_alive\<close> is 0, and otherwise
  \<open>days_alive\<close> rounded up to a multiple of 100, or \<open>days_alive + 100\<close> when
  \<open>days_alive\<close> is itself a multiple of 100. Both editions.
\<close>

theorem next_hundred_multiple_above:
  assumes "valid_datetime (clock w)" and "valid_date birthdate"
  shows "\<exists>r. compute_time_stats_en w birthdate = (Inr r, w)
           \<and> compute_time_stats_release w birthdate = (Inr r, w)
           \<and> next_hundred r mod 100 = 0
           \<and> days_alive r < next_hundred r
           \<and> next_hundred r =
               (if days_alive r = 0 then 100
                else if days_alive r mod 100 = 0 then days_alive r + 100
                else 100 * \<lceil>(of_int (days_alive r) :: rat) / 100\<rceil>)"
proof -
  define n where "n = max 0 (toordinal (date_of (clock w)) - toordinal birthdate)"
  have "100 * (n div 100 + 1) =
        (if n = 0 then 100
         else if n mod 100 = 0 then n + 100 else 100 * \<lceil>(of_int n :: rat) / 100\<rceil>)"
    using round_up_to_hundred [of n] by simp
  moreover have "n < 100 * (n div 100 + 1)" by (rule next_multiple_gt)
  moreover have "100 * (n div 100 + 1) mod 100 = 0" by simp
  ultimately show ?thesis
    unfolding compute_time_stats_en_value [OF assms]
      compute_time_stats_release_value [OF assms] n_def [symmetric]
    by simp
qed

theorem next_hundred_multiple_above_witness:
  "valid_datetime (clock example_world) \<and> valid_date birthdate_100_days
   \<and> (\<exists>r. compute_time_stats_en example_world birthdate_100_days = (Inr r, example_world)
           \<and> compute_time_stats_release example_world birthdate_100_days
               = (Inr r, example_world)
           \<and> next_hundred r mod 100 = 0
           \<and> days_alive r < next_hundred r
           \<and> next_hundred r =
               (if days_alive r = 0 then 100
                else if days_alive r mod 100 = 0 then days_alive r + 100
                else 100 * \<lceil>(of_int (days_alive r) :: rat) / 100\<rceil>))"
  using next_hundred_multiple_above [OF example_world_valid example_birthdates_valid(2)]
    example_world_valid example_birthdates_valid(2)
  by simp

text \<open>
  C2. For every birthdate and every timestamp, \<open>days_alive\<close> is the difference in days
  between the date of the timestamp and the birthdate, clamped at 0: it is 0 when the
  birthdate is strictly after that date, and the (non-negative) difference otherwise.
\<close>

theorem days_alive_clamped_difference:
  assumes "valid_datetime (clock w)" and "valid_date birthdate"
  shows "\<exists>r. compute_time_stats_en w birthdate = (Inr r, w)
           \<and> days_alive r = max 0 (toordinal (date_of (clock w)) - toordinal birthdate)
           \<and> days_alive r =
               (if date_lt (date_of (clock w)) birthdate then 0
                else toordinal (date_of (clock w)) - toordinal birthdate)
           \<and> 0 \<le> days_alive r"
proof -
  have vd: "valid_date (date_of (clock w))"
    using assms(1) by (simp add: valid_datetime_def)
  have "max 0 (toordinal (date_of (clock w)) - toordinal birthdate) =
        (if date_lt (date_of (clock w)) birthdate then 0
         else toordinal (date_of (clock w)) - toordinal birthdate)"
  proof (cases "date_lt (date_of (clock w)) birthdate")
    case True
    then show ?thesis using toordinal_strict_mono [OF vd assms(2)] by simp
  next
    case False
    have "\<not> toordinal (date_of (clock w)) < toordinal birthdate"
    proof
      assume lt: "toordinal (date_of (clock w)) < toordinal birthdate"
      then have "\<not> date_le birthdate (date_of (clock w))"
        using date_le_iff_toordinal [OF assms(2) vd] by simp
      then have "date_lt (date_of (clock w)) birthdate"
        by (auto simp add: date_le_def date_lt_def not_less intro: date.equality)
      then show False using False by simp
    qed
    then show ?thesis using False by simp
  qed
  then show ?thesis
    unfolding compute_time_stats_en_value [OF assms] by simp
qed

theorem days_alive_clamped_difference_witness:
  "valid_datetime (clock example_world) \<and> valid_date birthdate_future
   \<and> (\<exists>r. compute_time_stats_en example_world birthdate_future = (Inr r, example_world)
           \<and> days_alive r =
               max 0 (toordinal (date_of (clock example_world)) - toordinal birthdate_future)
           \<and> days_alive r =
               (if date_lt (date_of (clock example_world)) birthdate_future then 0
                else toordinal (date_of (clock example_world)) - toordinal birthdate_future)
           \<and> 0 \<le> days_alive r)"
  using days_alive_clamped_difference [OF example_world_valid example_birthdates_valid(3)]
    example_world_valid example_birthdates_valid(3)
  by simp

text \<open>
  C4. For every valid timestamp, \<open>hour_pct\<close> and \<open>day_pct\<close> are at least 0 and
  strictly less than 100.
\<close>

theorem percentages_in_range:
  assumes "valid_datetime (clock w)" and "valid_date birthdate"
  shows "\<exists>r. compute_time_stats_en w birthdate = (Inr r, w)
           \<and> 0 \<le> hour_pct r \<and> hour_pct r < 100
           \<and> 0 \<le> day_pct r \<and> day_pct r < 100"
proof -
  define t where "t = clock w"
  from assms(1) have h: "0 \<le> hour t" "hour t \<le> 23"
    and m: "0 \<le> minute t" "minute t \<le> 59"
    and s: "0 \<le> second t" "second t \<le> 59"
    and u: "0 \<le> microsecond t" "microsecond t \<le> 999999"
    by (simp_all add: valid_datetime_def t_def)
  note f = fractional_seconds_bounds [OF u]
  have kh: "0 \<le> minute t * 60 + second t" "minute t * 60 + second t < 3600"
    using m s by simp_all
  have kd: "0 \<le> hour t * 3600 + minute t * 60 + second t"
    "hour t * 3600 + minute t * 60 + second t < 86400"
    using h m s by simp_all
  have sh0: "0 \<le> round_double (of_int (minute t * 60 + second t) + fractional_seconds t)"
    and sh1: "round_double (of_int (minute t * 60 + second t) + fractional_seconds t)
              \<le> of_int (3600 * 2 ^ 20 - 1) / 2 ^ 20"
    using seconds_sum_bounds [OF kh _ f] by simp_all
  have sd0: "0 \<le> round_double (of_int (hour t * 3600 + minute t * 60 + second t)
                               + fractional_seconds t)"
    and sd1: "round_double (of_int (hour t * 3600 + minute t * 60 + second t)
                            + fractional_seconds t)
              \<le> of_int (86400 * 2 ^ 20 - 1) / 2 ^ 20"
    using seconds_sum_bounds [OF kd _ f] by simp_all
  have ph: "0 \<le> spec_hour_pct (minute t) (second t) (fractional_seconds t)"
    "spec_hour_pct (minute t) (second t) (fractional_seconds t) < 100"
    using percent_bounds [of 3600, OF _ _ sh0 sh1] by (simp_all add: spec_hour_pct_def)
  have pd: "0 \<le> spec_day_pct (hour t) (minute t) (second t) (fractional_seconds t)"
    "spec_day_pct (hour t) (minute t) (second t) (fractional_seconds t) < 100"
    using percent_bounds [of 86400, OF _ _ sd0 sd1] by (simp_all add: spec_day_pct_def)
  show ?thesis
    unfolding compute_time_stats_en_value [OF assms] t_def [symmetric]
    using ph pd by simp
qed

theorem percentages_in_range_witness:
  "valid_datetime (clock example_world) \<and> valid_date birthdate_29_days
   \<and> (\<exists>r. compute_time_stats_en example_world birthdate_29_days = (Inr r, example_world)
           \<and> 0 \<le> hour_pct r \<and> hour_pct r < 100
           \<and> 0 \<le> day_pct r \<and> day_pct r < 100)"
  using percentages_in_range [OF example_world_valid example_birthdates_valid(1)]
    example_world_valid example_birthdates_valid(1)
  by simp

text \<open>
  C5. For every birthdate and every timestamp, \<open>days_to_next\<close> is
  \<open>next_hundred - days_alive\<close> floored at 0, which is \<open>next_hundred - days_alive\<close>
  itself, and it is never negative.
\<close>

theorem days_to_next_difference:
  assumes "valid_datetime (clock w)" and "valid_date birthdate"
  shows "\<exists>r. compute_time_stats_en w birthdate = (Inr r, w)
           \<and> days_to_next r = max 0 (next_hundred r - days_alive r)
           \<and> days_to_next r = next_hundred r - days_alive r
           \<and> 0 \<le> days_to_next r"
proof -
  define n where "n = max 0 (toordinal (date_of (clock w)) - toordinal birthdate)"
  have "n < 100 * (n div 100 + 1)" by (rule next_multiple_gt)
  then show ?thesis
    unfolding compute_time_stats_en_value [OF assms] n_def [symmetric] by simp
qed

theorem days_to_next_difference_witness:
  "valid_datetime (clock example_world) \<and> valid_date birthdate_29_days
   \<and> (\<exists>r. compute_time_stats_en example_world birthdate_29_days = (Inr r, example_world)
           \<and> days_to_next r = max 0 (next_hundred r - days_alive r)
           \<and> days_to_next r = next_hundred r - days_alive r
           \<and> 0 \<le> days_to_next r)"
  using days_to_next_difference [OF example_world_valid example_birthdates_valid(1)]
    example_world_valid example_birthdates_valid(1)
  by simp

text \<open>
  C6. \<open>compute_time_stats\<close> is total: for any timestamp and any date, also a birthdate
  in the future (zero elapsed days) or far in the past, it returns its six values, raises
  no exception and leaves the environment as it found it.
\<close>

theorem compute_time_stats_total:
  assumes "valid_datetime (clock w)" and "valid_date birthdate"
  shows "\<exists>r. compute_time_stats_en w birthdate = (Inr r, w)
           \<and> now r = clock w
           \<and> days_alive r =
               (if date_le birthdate (date_of (clock w))
                then toordinal (date_of (clock w)) - toordinal birthdate else 0)
           \<and> days_alive r \<le> 3652058"
proof -
  have vd: "valid_date (date_of (clock w))"
    using assms(1) by (simp add: valid_datetime_def)
  have "toordinal (date_of (clock w)) - toordinal birthdate \<le> 3652058"
    using toordinal_bounds(2) [OF vd] toordinal_bounds(1) [OF assms(2)] by linarith
  then show ?thesis
    unfolding compute_time_stats_en_value [OF assms]
    using date_le_iff_toordinal [OF assms(2) vd] by auto
qed

theorem compute_time_stats_total_witness:
  "valid_datetime (clock example_world) \<and> valid_date birthdate_future
   \<and> (\<exists>r. compute_time_stats_en example_world birthdate_future = (Inr r, example_world)
           \<and> now r = clock example_world
           \<and> days_alive r =
               (if date_le birthdate_future (date_of (clock example_world))
                then toordinal (date_of (clock example_world)) - toordinal birthdate_future
                else 0)
           \<and> days_alive r \<le> 3652058)"
  using compute_time_stats_total [OF example_world_valid example_birthdates_valid(3)]
    example_world_valid example_birthdates_valid(3)
  by simp

text \<open>
  C9. The two editions of \<open>compute_time_stats\<close> agree: in every environment and for
  every birthdate they return the same result.
\<close>

lemma div_float_int_literals:
  shows "div_float_int x 3600 = float_truediv x 3600"
    and "div_float_int x 86400 = float_truediv x 86400"
  by (simp_all add: div_float_int_def float_of_int_small)

theorem editions_agree:
  "compute_time_stats_en w birthdate = compute_time_stats_release w birthdate"
  by (simp only: compute_time_stats_en_def compute_time_stats_release_def
      div_float_int_literals)

text \<open>
  C10. For every birthdate and every timestamp, \<open>days_to_next\<close> lies between 1 and 100
  inclusive. Both editions.
\<close>

theorem days_to_next_bounds:
  assumes "valid_datetime (clock w)" and "valid_date birthdate"
  shows "\<exists>r. compute_time_stats_en w birthdate = (Inr r, w)
           \<and> compute_time_stats_release w birthdate = (Inr r, w)
           \<and> 1 \<le> days_to_next r \<and> days_to_next r \<le> 100"
proof -
  define n where "n = max 0 (toordinal (date_of (clock w)) - toordinal birthdate)"
  define k where "k = n div 100"
  define m where "m = n mod 100"
  have "n = 100 * k + m" by (simp add: k_def m_def)
  moreover have "0 \<le> m" "m < 100" by (simp_all add: m_def)
  ultimately have "1 \<le> 100 * (k + 1) - n" "100 * (k + 1) - n \<le> 100" by simp_all
  then show ?thesis
    unfolding compute_time_stats_en_value [OF assms]
      compute_time_stats_release_value [OF assms] n_def [symmetric] k_def [symmetric]
    by simp
qed

theorem days_to_next_bounds_witness:
  "valid_datetime (clock example_world) \<and> valid_date birthdate_100_days
   \<and> (\<exists>r. compute_time_stats_en example_world birthdate_100_days = (Inr r, example_world)
           \<and> compute_time_stats_release example_world birthdate_100_days
               = (Inr r, example_world)
           \<and> 1 \<le> days_to_next r \<and> days_to_next r \<le> 100)"
  using days_to_next_bounds [OF example_world_valid example_birthdates_valid(2)]
    example_world_valid example_birthdates_valid(2)
  by simp

text \<open>
  C3. For every timestamp with hours \<open>h\<close>, minutes \<open>m\<close>, seconds \<open>s\<close> and fractional
  seconds \<open>f\<close>, \<open>hour_pct\<close> is \<open>(m \<times> 60 + s + f) / 3600 \<times> 100\<close> and \<open>day_pct\<close> is
  \<open>(h \<times> 3600 + m \<times> 60 + s + f) / 86400 \<times> 100\<close>. The values are Python floats: they are
  these formulas evaluated in binary64 arithmetic, and they differ from the formulas
  evaluated in exact arithmetic by at most \<open>2^-45\<close>.
\<close>

theorem percentages_follow_formulas:
  assumes "valid_datetime (clock w)" and "valid_date birthdate"
  shows "\<exists>r. compute_time_stats_en w birthdate = (Inr r, w)
           \<and> hour_pct r =
               spec_hour_pct (minute (clock w)) (second (clock w))
                 (fractional_seconds (clock w))
           \<and> day_pct r =
               spec_day_pct (hour (clock w)) (minute (clock w)) (second (clock w))
                 (fractional_seconds (clock w))
           \<and> \<bar>hour_pct r
                - (of_int (minute (clock w) * 60 + second (clock w))
                   + of_int (microsecond (clock w)) / 1000000) / 3600 * 100\<bar>
               \<le> 1 / 2 ^ 45
           \<and> \<bar>day_pct r
                - (of_int (hour (clock w) * 3600 + minute (clock w) * 60 + second (clock w))
                   + of_int (microsecond (clock w)) / 1000000) / 86400 * 100\<bar>
               \<le> 1 / 2 ^ 45"
proof -
  define t where "t = clock w"
  from assms(1) have h: "0 \<le> hour t" "hour t \<le> 23"
    and m: "0 \<le> minute t" "minute t \<le> 59"
    and s: "0 \<le> second t" "second t \<le> 59"
    and u: "0 \<le> microsecond t" "microsecond t \<le> 999999"
    by (simp_all add: valid_datetime_def t_def)
  have kh: "0 \<le> minute t * 60 + second t" "minute t * 60 + second t < 3600"
    using m s by simp_all
  have kd: "0 \<le> hour t * 3600 + minute t * 60 + second t"
    "hour t * 3600 + minute t * 60 + second t < 86400"
    using h m s by simp_all
  have eh: "\<bar>spec_hour_pct (minute t) (second t) (fractional_seconds t)
             - (of_int (minute t * 60 + second t) + of_int (microsecond t) / 1000000)
               / 3600 * 100\<bar> \<le> 1 / 2 ^ 45"
    using percent_error [OF kh(1) kh(2) _ _ _ u, of 12]
    by (simp add: spec_hour_pct_def fractional_seconds_def)
  have ed: "\<bar>spec_day_pct (hour t) (minute t) (second t) (fractional_seconds t)
             - (of_int (hour t * 3600 + minute t * 60 + second t)
                + of_int (microsecond t) / 1000000) / 86400 * 100\<bar> \<le> 1 / 2 ^ 45"
    using percent_error [OF kd(1) kd(2) _ _ _ u, of 17]
    by (simp add: spec_day_pct_def fractional_seconds_def)
  show ?thesis
    unfolding compute_time_stats_en_value [OF assms] t_def [symmetric]
    using eh ed by simp
qed

theorem percentages_follow_formulas_witness:
  "valid_datetime (clock example_world) \<and> valid_date birthdate_29_days
   \<and> (\<exists>r. compute_time_stats_en example_world birthdate_29_days = (Inr r, example_world)
           \<and> hour_pct r =
               spec_hour_pct (minute (clock example_world)) (second (clock example_world))
                 (fractional_seconds (clock example_world))
           \<and> day_pct r =
               spec_day_pct (hour (clock example_world)) (minute (clock example_world))
                 (second (clock example_world)) (fractional_seconds (clock example_world))
           \<and> \<bar>hour_pct r
                - (of_int (minute (clock example_world) * 60 + second (clock example_world))
                   + of_int (microsecond (clock example_world)) / 1000000) / 3600 * 100\<bar>
               \<le> 1 / 2 ^ 45
           \<and> \<bar>day_pct r
                - (of_int (hour (clock example_world) * 3600
                           + minute (clock example_world) * 60
                           + second (clock example_world))
                   + of_int (microsecond (clock example_world)) / 1000000) / 86400 * 100\<bar>
               \<le> 1 / 2 ^ 45)"
  using percentages_follow_formulas [OF example_world_valid example_birthdates_valid(1)]
    example_world_valid example_birthdates_valid(1)
  by simp

text \<open>
  C8. \<open>load_birthdate_from_config\<close> is to return \<open>None\<close> whenever one of the keys
  \<open>year\<close>, \<open>month\<close>, \<open>day\<close> is bound to a value that is not an integer. For the file
  \<open>{"year": true, "month": true, "day": true}\<close> both editions return the date
  0001-01-01 instead: \<open>isinstance(True, int)\<close> holds, and \<open>date(True, True, True)\<close> is
  \<open>date(1, 1, 1)\<close>.
\<close>

theorem load_birthdate_from_config_accepts_booleans:
  "load_birthdate_from_config_en boolean_config_world
     = Some \<lparr>year = 1, month = 1, day = 1\<rparr>
   \<and> load_birthdate_from_config_release boolean_config_world
     = Some \<lparr>year = 1, month = 1, day = 1\<rparr>"
  by (simp add: load_birthdate_from_config_en_def load_birthdate_from_config_release_def
      boolean_config_world_def example_world_def path_exists_def json_load_def
      date_new_def valid_date_def days_in_month_def date_today_def date_of_def
      date_le_def date_lt_def)

end
